theory Spec2Isabelle
  imports Main "HOL-Library.Sublist" "HOL-Library.Char_ord" "HOL-Library.List_Lexorder"
begin

section \<open>The world the engine runs in\<close>

text \<open>
  The engine of \<^verbatim>\<open>mikrotik_master.py\<close> talks to three things outside itself: the file
  system below its output directory, the HTTP session, and the clock (\<^verbatim>\<open>time.sleep\<close>).
  All three are fields of one record that every operation takes and returns.

  A path is the list of its components, so \<^verbatim>\<open>output_dir / version / arch / filename\<close> is
  \<open>output_dir @ [version, arch, filename]\<close>. A byte is a \<^typ>\<open>char\<close>, file contents and
  response bodies are strings.
\<close>

type_synonym path = "string list"

datatype node = File string | Dir

datatype http_method = HEAD | GET

type_synonym request = "http_method \<times> string"

text \<open>
  What a request comes back with: either the transport fails (timeout, DNS, connection
  reset: \<^verbatim>\<open>requests\<close> raises), or a reply arrives with a status code and a body.
  The body is the list of chunks \<^verbatim>\<open>iter_content\<close> yields; \<open>broken\<close> says that the
  connection drops after the last of them, so that reading the body raises there.
\<close>

datatype response = Transport_error | Reply int "string list" bool

text \<open>One entry of the log: the level and what the line reports.\<close>

datatype message =
    Skip_msg string
  | Download_msg string int
  | Retry_msg nat string nat
  | Failed_msg string
  | Banner_msg
  | Version_found_msg string
  | Saved_versions_msg path
  | Save_versions_failed_msg
  | Saved_stats_msg path
  | Save_stats_failed_msg
  | Generated_msg nat
  | Found_version_msg string
  | Found_count_msg nat
  | Stop_requested_msg
  | Processing_msg nat nat string
  | Rss_new_msg string
  | Rss_failed_msg

text \<open>The two documents the engine writes with \<^verbatim>\<open>json.dump\<close>.\<close>

datatype document =
    Versions_doc "string list" string
  | Stats_doc "string \<rightharpoonup> int" "string \<rightharpoonup> string" "string list" string

record world =
  fs :: "path \<rightharpoonup> node"
  dir_size :: int
  answers :: "nat \<Rightarrow> request \<Rightarrow> response"
  sent :: "request list"
  slept :: "nat list"
  logged :: "(string \<times> message) list"
  utcnow :: string
  json_dump :: "document \<Rightarrow> string"
  json_load_versions :: "string \<Rightarrow> string list option"

text \<open>
  \<open>answers w k r\<close> is what the network answers when \<open>r\<close> is the \<open>k\<close>-th request of the
  run (counted from 0); \<open>sent\<close> records the requests issued so far. \<open>dir_size\<close> is what
  \<^verbatim>\<open>stat().st_size\<close> reports for a directory. \<open>json_dump\<close> and \<open>json_load_versions\<close>
  stand for the JSON library: the second gives the strings that iterating
  \<^verbatim>\<open>json.load(f).get('versions', [])\<close> yields, and \<open>None\<close> when that raises.
\<close>

subsection \<open>File system\<close>

definition path_exists :: "world \<Rightarrow> path \<Rightarrow> bool" where
  "path_exists w p = (fs w p \<noteq> None)"

definition st_size :: "world \<Rightarrow> path \<Rightarrow> int" where
  "st_size w p = (case fs w p of Some (File c) \<Rightarrow> int (length c) | _ \<Rightarrow> dir_size w)"

definition is_file :: "world \<Rightarrow> path \<Rightarrow> bool" where
  "is_file w p = (case fs w p of Some (File c) \<Rightarrow> True | _ \<Rightarrow> False)"

text \<open>
  \<^verbatim>\<open>mkdir(parents=True, exist_ok=True)\<close>: raises (\<open>None\<close>) when the path or one of its
  ancestors is a regular file, and otherwise makes the path and every ancestor a directory.
\<close>

definition mkdir_parents :: "world \<Rightarrow> path \<Rightarrow> world option" where
  "mkdir_parents w p =
     (if list_ex (is_file w) (prefixes p) then None
      else Some (w\<lparr>fs := fold (\<lambda>q f. f(q \<mapsto> Dir)) (prefixes p) (fs w)\<rparr>))"

text \<open>
  \<^verbatim>\<open>open(p, 'wb')\<close>: raises when \<open>p\<close> is a directory or its parent is not one, and
  otherwise leaves an empty file at \<open>p\<close>.
\<close>

definition open_wb :: "world \<Rightarrow> path \<Rightarrow> world option" where
  "open_wb w p =
     (if fs w p = Some Dir then None
      else if fs w (butlast p) = Some Dir then Some (w\<lparr>fs := (fs w)(p \<mapsto> File [])\<rparr>)
      else None)"

definition file_append :: "world \<Rightarrow> path \<Rightarrow> string \<Rightarrow> world" where
  "file_append w p bs =
     (case fs w p of Some (File c) \<Rightarrow> w\<lparr>fs := (fs w)(p \<mapsto> File (c @ bs))\<rparr> | _ \<Rightarrow> w)"

text \<open>\<^verbatim>\<open>Path.unlink\<close>: removes a regular file, raises on anything else.\<close>

definition unlink :: "world \<Rightarrow> path \<Rightarrow> world option" where
  "unlink w p =
     (case fs w p of Some (File c) \<Rightarrow> Some (w\<lparr>fs := (fs w)(p := None)\<rparr>) | _ \<Rightarrow> None)"

subsection \<open>Network, clock, log\<close>

definition session_request :: "world \<Rightarrow> request \<Rightarrow> world \<times> response" where
  "session_request w r = (w\<lparr>sent := sent w @ [r]\<rparr>, answers w (length (sent w)) r)"

definition session_get :: "world \<Rightarrow> string \<Rightarrow> world \<times> response" where
  "session_get w url = session_request w (GET, url)"

definition session_head :: "world \<Rightarrow> string \<Rightarrow> world \<times> response" where
  "session_head w url = session_request w (HEAD, url)"

definition sleep :: "world \<Rightarrow> nat \<Rightarrow> world" where
  "sleep w secs = w\<lparr>slept := slept w @ [secs]\<rparr>"

definition log :: "world \<Rightarrow> message \<Rightarrow> string \<Rightarrow> world" where
  "log w m level = w\<lparr>logged := logged w @ [(level, m)]\<rparr>"

section \<open>The engine\<close>

text \<open>
  The object passed as \<^verbatim>\<open>gui\<close> holds the statistics dictionary. Its integer counters
  are \<open>stats\<close>; the one textual entry, \<^verbatim>\<open>current_version\<close>, written by
  \<^verbatim>\<open>update_stat\<close>, lives in \<open>stats_text\<close>. \<open>stop_requested\<close> is \<open>None\<close> for
  the wrapper object of the headless controller, which has no such attribute.
\<close>

record gui =
  stats :: "string \<rightharpoonup> int"
  stats_text :: "string \<rightharpoonup> string"
  stop_requested :: "bool option"

record engine =
  output_dir :: path
  download_workers :: int
  max_retries :: int
  gui :: "gui option"
  version_exists_cache :: "string \<rightharpoonup> bool"
  found_versions :: "string set"

definition BASE_CDN_URL :: string where
  "BASE_CDN_URL = ''https://download.mikrotik.com/routeros''"

definition RSS_URL :: string where
  "RSS_URL = ''https://mikrotik.com/download.rss''"

definition versions_file :: "engine \<Rightarrow> path" where
  "versions_file e = output_dir e @ [''found_versions.json'']"

definition stats_file :: "engine \<Rightarrow> path" where
  "stats_file e = output_dir e @ [''download_stats.json'']"

definition increment_stat :: "engine \<Rightarrow> string \<Rightarrow> int \<Rightarrow> engine" where
  "increment_stat e key amount =
     (case gui e of
        None \<Rightarrow> e
      | Some g \<Rightarrow>
          e\<lparr>gui := Some (g\<lparr>stats := (stats g)(key \<mapsto>
                 (case stats g key of None \<Rightarrow> 0 | Some n \<Rightarrow> n) + amount)\<rparr>)\<rparr>)"

definition update_stat :: "engine \<Rightarrow> string \<Rightarrow> string \<Rightarrow> engine" where
  "update_stat e key v =
     (case gui e of
        None \<Rightarrow> e
      | Some g \<Rightarrow>
          e\<lparr>gui := Some (g\<lparr>stats := (stats g)(key := None),
                             stats_text := (stats_text g)(key \<mapsto> v)\<rparr>)\<rparr>)"

subsection \<open>download_file\<close>

text \<open>
  The body of the \<^verbatim>\<open>try\<close> block of \<^verbatim>\<open>download_file\<close> either returns a value or raises
  into the \<^verbatim>\<open>except\<close> clause.
\<close>

datatype outcome = Returned bool | Raised

definition out_path :: "engine \<Rightarrow> string \<Rightarrow> string \<Rightarrow> string \<Rightarrow> path" where
  "out_path e version arch filename = output_dir e @ [version, arch, filename]"

text \<open>The loop over \<^verbatim>\<open>iter_content\<close>: empty chunks are passed over.\<close>

fun write_chunks :: "world \<Rightarrow> path \<Rightarrow> string list \<Rightarrow> int \<Rightarrow> world \<times> int" where
  "write_chunks w p [] downloaded = (w, downloaded)"
| "write_chunks w p (chunk # cs) downloaded =
     (if chunk \<noteq> [] then write_chunks (file_append w p chunk) p cs (downloaded + int (length chunk))
      else write_chunks w p cs downloaded)"

definition try_download ::
  "engine \<Rightarrow> world \<Rightarrow> string \<Rightarrow> string \<Rightarrow> string \<Rightarrow> string \<Rightarrow> engine \<times> world \<times> outcome" where
  "try_download e w url version arch filename =
     (let p = out_path e version arch filename in
      if path_exists w p \<and> st_size w p > 0 then
        (increment_stat e ''files_skipped'' 1, log w (Skip_msg filename) ''INFO'', Returned True)
      else
        (case session_get w url of
           (w1, Transport_error) \<Rightarrow> (e, w1, Raised)
         | (w1, Reply status_code chunks broken) \<Rightarrow>
             if status_code = 404 then (e, w1, Returned False)
             else if 400 \<le> status_code \<and> status_code < 600 then (e, w1, Raised)
             else
               (case mkdir_parents w1 (butlast p) of
                  None \<Rightarrow> (e, w1, Raised)
                | Some w2 \<Rightarrow>
                    (case open_wb w2 p of
                       None \<Rightarrow> (e, w2, Raised)
                     | Some w3 \<Rightarrow>
                         (case write_chunks w3 p chunks 0 of
                            (w4, downloaded) \<Rightarrow>
                              if broken then (e, w4, Raised)
                              else
                                (increment_stat (increment_stat e ''files_downloaded'' 1)
                                   ''bytes_downloaded'' downloaded,
                                 log w4 (Download_msg filename downloaded) ''SUCCESS'',
                                 Returned True))))))"

lemma try_download_max_retries:
  "try_download e w url version arch filename = (e', w', r) \<Longrightarrow> max_retries e' = max_retries e"
  by (auto simp: try_download_def Let_def increment_stat_def
           split: if_splits prod.splits response.splits option.splits)

text \<open>
  \<^verbatim>\<open>retry_count\<close> is only ever the default 0 or the previous value plus one, so it is a
  natural number; \<^verbatim>\<open>max_retries\<close> is whatever integer the caller configured.
\<close>

function download_file ::
  "engine \<Rightarrow> world \<Rightarrow> string \<Rightarrow> string \<Rightarrow> string \<Rightarrow> string \<Rightarrow> nat \<Rightarrow> engine \<times> world \<times> bool" where
  "download_file e w url version arch filename retry_count =
     (case try_download e w url version arch filename of
        (e1, w1, Returned b) \<Rightarrow> (e1, w1, b)
      | (e1, w1, Raised) \<Rightarrow>
          if int retry_count < max_retries e1 then
            (let backoff = 2 ^ retry_count;
                 w2 = log w1 (Retry_msg (retry_count + 1) filename backoff) ''WARNING'';
                 w3 = sleep w2 backoff
             in download_file e1 w3 url version arch filename (retry_count + 1))
          else
            (let w2 = log w1 (Failed_msg filename) ''ERROR'';
                 e2 = increment_stat e1 ''files_failed'' 1;
                 p = out_path e2 version arch filename;
                 w3 = (if path_exists w2 p
                       then (case unlink w2 p of None \<Rightarrow> w2 | Some w' \<Rightarrow> w')
                       else w2)
             in (e2, w3, False)))"
  by pat_completeness auto
termination
  by (relation "measure (\<lambda>(e, w, url, version, arch, filename, retry_count).
                   nat (max_retries e - int retry_count))")
     (auto dest: try_download_max_retries [OF sym])

subsection \<open>generate_all_version_numbers\<close>

text \<open>\<^verbatim>\<open>str(n)\<close> for an integer: decimal digits, a minus sign in front when negative.\<close>

definition digit_char :: "nat \<Rightarrow> char" where
  "digit_char d = ''0123456789'' ! d"

fun digits_of :: "nat \<Rightarrow> string" where
  "digits_of n = (if n < 10 then [digit_char n] else digits_of (n div 10) @ [digit_char (n mod 10)])"

definition str_int :: "int \<Rightarrow> string" where
  "str_int i = (if i < 0 then CHR ''-'' # digits_of (nat (- i)) else digits_of (nat i))"

text \<open>
  The four nested loops, each written as the list it appends: \<open>[i..j]\<close> is
  \<^verbatim>\<open>range(i, j + 1)\<close>.
\<close>

definition patch_versions :: "string \<Rightarrow> int \<Rightarrow> string list" where
  "patch_versions base patch =
     (base @ ''.'' @ str_int patch)
       # map (\<lambda>rc. base @ ''.'' @ str_int patch @ ''rc'' @ str_int rc) [1..5]
       @ map (\<lambda>beta. base @ ''.'' @ str_int patch @ ''beta'' @ str_int beta) [1..5]"

definition minor_versions :: "int \<Rightarrow> int \<Rightarrow> string list" where
  "minor_versions major minor =
     (let base = str_int major @ ''.'' @ str_int minor
      in base # concat (map (patch_versions base) [1..20]))"

definition major_versions :: "int \<Rightarrow> int \<Rightarrow> int \<Rightarrow> int \<Rightarrow> int \<Rightarrow> string list" where
  "major_versions start_major start_minor end_major end_minor major =
     (let min_minor = (if major = start_major then start_minor else 0);
          max_minor = (if major = end_major then end_minor else 99)
      in concat (map (minor_versions major) [min_minor..max_minor]))"

definition generate_all_version_numbers :: "int \<Rightarrow> int \<Rightarrow> int \<Rightarrow> int \<Rightarrow> string list" where
  "generate_all_version_numbers start_major start_minor end_major end_minor =
     concat (map (major_versions start_major start_minor end_major end_minor)
               [start_major..end_major])"

subsection \<open>check_version_exists\<close>

definition cache_result :: "engine \<Rightarrow> string \<Rightarrow> bool \<Rightarrow> engine" where
  "cache_result e version b =
     e\<lparr>version_exists_cache := (version_exists_cache e)(version \<mapsto> b)\<rparr>"

definition check_version_exists :: "engine \<Rightarrow> world \<Rightarrow> string \<Rightarrow> engine \<times> world \<times> bool" where
  "check_version_exists e w version =
     (case version_exists_cache e version of
        Some b \<Rightarrow> (e, w, b)
      | None \<Rightarrow>
          (case session_head w (BASE_CDN_URL @ ''/'' @ version @ ''/'') of
             (w1, Transport_error) \<Rightarrow> (cache_result e version False, w1, False)
           | (w1, Reply status_code body broken) \<Rightarrow>
               if status_code \<in> {200, 301, 302, 403}
               then (cache_result e version True, w1, True)
               else
                 (case session_head w1 (BASE_CDN_URL @ ''/'' @ version @ ''/CHANGELOG'') of
                    (w2, Transport_error) \<Rightarrow> (cache_result e version False, w2, False)
                  | (w2, Reply status_code2 body2 broken2) \<Rightarrow>
                      (cache_result e version (status_code2 = 200), w2, status_code2 = 200))))"

subsection \<open>build_download_urls\<close>

text \<open>
  A file name pattern is the text of the format string cut at its two fields, so that
  \<^verbatim>\<open>pattern.format(arch=arch, version=version)\<close> fills the fields in.
\<close>

datatype piece = Lit string | Arch_field | Version_field

definition ARCHITECTURES :: "string list" where
  "ARCHITECTURES = [''arm'', ''arm64'', ''mipsbe'', ''mmips'', ''ppc'', ''smips'', ''tile'', ''x86'']"

definition FILE_PATTERNS :: "piece list list" where
  "FILE_PATTERNS =
     [[Lit ''routeros-'', Arch_field, Lit ''-'', Version_field, Lit ''.npk''],
      [Lit ''all_packages-'', Arch_field, Lit ''-'', Version_field, Lit ''.zip''],
      [Lit ''routeros-'', Arch_field, Lit ''-'', Version_field, Lit ''.zip''],
      [Lit ''mikrotik-'', Version_field, Lit ''.iso''],
      [Lit ''cd-'', Version_field, Lit ''.iso''],
      [Lit ''chr-'', Version_field, Lit ''.ova''],
      [Lit ''chr-'', Version_field, Lit ''.vdi''],
      [Lit ''chr-'', Version_field, Lit ''.vmdk''],
      [Lit ''chr-'', Version_field, Lit ''.vhdx''],
      [Lit ''chr-'', Version_field, Lit ''.img''],
      [Lit ''chr-'', Version_field, Lit ''.zip''],
      [Lit ''routeros-'', Arch_field, Lit ''-'', Version_field, Lit ''.upgrade''],
      [Lit ''routeros-'', Version_field, Lit ''.pdf''],
      [Lit ''CHANGELOG''],
      [Lit ''README'']]"

fun piece_text :: "piece \<Rightarrow> string" where
  "piece_text (Lit s) = s"
| "piece_text Arch_field = ''{arch}''"
| "piece_text Version_field = ''{version}''"

definition pattern_text :: "piece list \<Rightarrow> string" where
  "pattern_text pattern = concat (map piece_text pattern)"

fun fill_piece :: "string \<Rightarrow> string \<Rightarrow> piece \<Rightarrow> string" where
  "fill_piece arch version (Lit s) = s"
| "fill_piece arch version Arch_field = arch"
| "fill_piece arch version Version_field = version"

definition format_pattern :: "piece list \<Rightarrow> string \<Rightarrow> string \<Rightarrow> string" where
  "format_pattern pattern arch version = concat (map (fill_piece arch version) pattern)"

text \<open>\<^verbatim>\<open>x in s\<close> on strings: \<open>x\<close> occurs in \<open>s\<close> as a contiguous piece.\<close>

fun contains :: "string \<Rightarrow> string \<Rightarrow> bool" where
  "contains x [] = (x = [])"
| "contains x (c # cs) = (prefix x (c # cs) \<or> contains x cs)"

definition build_download_urls :: "string \<Rightarrow> (string \<times> string \<times> string) list" where
  "build_download_urls version =
     concat (map (\<lambda>arch.
       concat (map (\<lambda>pattern.
         if \<not> contains ''{arch}'' (pattern_text pattern) \<and> arch \<noteq> ''x86'' then []
         else if arch \<noteq> ''x86''
                 \<and> list_ex (\<lambda>x. contains x (pattern_text pattern)) [''chr-'', ''mikrotik-'', ''cd-'']
         then []
         else
           (let filename = format_pattern pattern arch version;
                url = BASE_CDN_URL @ ''/'' @ version @ ''/'' @ filename
            in [(url, arch, filename)]))
         FILE_PATTERNS))
       ARCHITECTURES)"

subsection \<open>process_version\<close>

text \<open>
  The download pool is run as one worker: the targets are fetched one after another in the
  order they were submitted. The result of a single download is dropped, as
  \<^verbatim>\<open>fut.result()\<close> inside \<^verbatim>\<open>try\<close> does.
\<close>

fun download_all ::
  "engine \<Rightarrow> world \<Rightarrow> string \<Rightarrow> (string \<times> string \<times> string) list \<Rightarrow> engine \<times> world" where
  "download_all e w version [] = (e, w)"
| "download_all e w version ((url, arch, fname) # urls) =
     (case download_file e w url version arch fname 0 of
        (e1, w1, b) \<Rightarrow> download_all e1 w1 version urls)"

definition process_version :: "engine \<Rightarrow> world \<Rightarrow> string \<Rightarrow> engine \<times> world \<times> int" where
  "process_version e w version =
     (case check_version_exists e w version of
        (e1, w1, False) \<Rightarrow> (e1, w1, 0)
      | (e1, w1, True) \<Rightarrow>
          (let w2 = log w1 Banner_msg ''INFO'';
               w3 = log w2 (Version_found_msg version) ''FOUND'';
               w4 = log w3 Banner_msg ''INFO'';
               e2 = e1\<lparr>found_versions := insert version (found_versions e1)\<rparr>;
               e3 = increment_stat e2 ''versions_found'' 1;
               e4 = update_stat e3 ''current_version'' version;
               urls = build_download_urls version
           in (case download_all e4 w4 version urls of (e5, w5) \<Rightarrow> (e5, w5, 1))))"

subsection \<open>Persistence\<close>

definition load_persisted :: "engine \<Rightarrow> world \<Rightarrow> engine" where
  "load_persisted e w =
     (if path_exists w (versions_file e) then
        (case fs w (versions_file e) of
           Some (File c) \<Rightarrow>
             (case json_load_versions w c of
                None \<Rightarrow> e
              | Some vs \<Rightarrow> e\<lparr>found_versions := fold insert vs (found_versions e)\<rparr>)
         | _ \<Rightarrow> e)
      else e)"

definition save_found_versions :: "engine \<Rightarrow> world \<Rightarrow> world" where
  "save_found_versions e w =
     (case open_wb w (versions_file e) of
        None \<Rightarrow> log w Save_versions_failed_msg ''WARNING''
      | Some w1 \<Rightarrow>
          (let doc = Versions_doc (sorted_list_of_set (found_versions e)) (utcnow w);
               w2 = file_append w1 (versions_file e) (json_dump w doc)
           in log w2 (Saved_versions_msg (versions_file e)) ''INFO''))"

definition save_stats :: "engine \<Rightarrow> world \<Rightarrow> world" where
  "save_stats e w =
     (let (counters, texts) = (case gui e of None \<Rightarrow> (Map.empty, Map.empty)
                                | Some g \<Rightarrow> (stats g, stats_text g))
      in case open_wb w (stats_file e) of
           None \<Rightarrow> log w Save_stats_failed_msg ''WARNING''
         | Some w1 \<Rightarrow>
             (let doc = Stats_doc counters texts (sorted_list_of_set (found_versions e)) (utcnow w);
                  w2 = file_append w1 (stats_file e) (json_dump w doc)
              in log w2 (Saved_stats_msg (stats_file e)) ''INFO''))"

subsection \<open>scan_versions_range_and_download\<close>

text \<open>
  \<^verbatim>\<open>s.split('.')\<close> and \<^verbatim>\<open>int(s)\<close> on ASCII text: surrounding white space, an optional
  sign, then digits, where single underscores may stand between digits. \<open>None\<close> is
  \<^verbatim>\<open>ValueError\<close>.
\<close>

fun split_on :: "char \<Rightarrow> string \<Rightarrow> string list" where
  "split_on sep [] = [[]]"
| "split_on sep (c # cs) =
     (if c = sep then [] # split_on sep cs
      else (case split_on sep cs of [] \<Rightarrow> [[c]] | x # xs \<Rightarrow> (c # x) # xs))"

definition is_digit :: "char \<Rightarrow> bool" where
  "is_digit c = (c \<in> set ''0123456789'')"

definition digit_val :: "char \<Rightarrow> nat" where
  "digit_val c = of_char c - 48"

definition is_space :: "char \<Rightarrow> bool" where
  "is_space c = (c \<in> set [CHR '' '', CHR 0x09, CHR 0x0A, CHR 0x0B, CHR 0x0C, CHR 0x0D,
                            CHR 0x1C, CHR 0x1D, CHR 0x1E, CHR 0x1F])"

definition strip :: "string \<Rightarrow> string" where
  "strip s = rev (dropWhile is_space (rev (dropWhile is_space s)))"

fun digits_value :: "nat \<Rightarrow> string \<Rightarrow> nat option" where
  "digits_value acc [] = Some acc"
| "digits_value acc [c] = (if is_digit c then Some (10 * acc + digit_val c) else None)"
| "digits_value acc (c # d # ds) =
     (if is_digit c then digits_value (10 * acc + digit_val c) (d # ds)
      else if c = CHR ''_'' \<and> is_digit d then digits_value (10 * acc + digit_val d) ds
      else None)"

definition py_nat :: "string \<Rightarrow> nat option" where
  "py_nat s = (case s of [] \<Rightarrow> None
               | c # cs \<Rightarrow> if is_digit c then digits_value (digit_val c) cs else None)"

definition py_int :: "string \<Rightarrow> int option" where
  "py_int s =
     (case strip s of
        [] \<Rightarrow> None
      | c # cs \<Rightarrow>
          if c = CHR ''-'' then map_option (\<lambda>n. - int n) (py_nat cs)
          else if c = CHR ''+'' then map_option int (py_nat cs)
          else map_option int (py_nat (c # cs)))"

datatype error = ValueError | AttributeError

text \<open>
  The probe pool is run as one worker too: the candidates are probed in the order they
  were generated, and \<open>existing\<close> collects the hits in that order.
\<close>

fun probe_all ::
  "engine \<Rightarrow> world \<Rightarrow> string list \<Rightarrow> string list \<Rightarrow> engine \<times> world \<times> string list" where
  "probe_all e w [] existing = (e, w, existing)"
| "probe_all e w (v # vs) existing =
     (case check_version_exists e w v of
        (e1, w1, b) \<Rightarrow>
          (let e2 = increment_stat e1 ''versions_tested'' 1 in
           if b then probe_all e2 (log w1 (Found_version_msg v) ''FOUND'') vs (existing @ [v])
           else probe_all e2 w1 vs existing))"

text \<open>
  The loop \<^verbatim>\<open>for i, v in enumerate(sorted(existing), 1)\<close>. Reading
  \<^verbatim>\<open>self.gui.stop_requested\<close> raises \<^verbatim>\<open>AttributeError\<close> on an object without the
  attribute.
\<close>

fun download_each ::
  "engine \<Rightarrow> world \<Rightarrow> nat \<Rightarrow> nat \<Rightarrow> string list \<Rightarrow> engine \<times> world \<times> error option" where
  "download_each e w i n [] = (e, w, None)"
| "download_each e w i n (v # vs) =
     (case (case gui e of None \<Rightarrow> Some False | Some g \<Rightarrow> stop_requested g) of
        None \<Rightarrow> (e, w, Some AttributeError)
      | Some True \<Rightarrow> (e, log w Stop_requested_msg ''WARNING'', None)
      | Some False \<Rightarrow>
          (case process_version e (log w (Processing_msg i n v) ''INFO'') v of
             (e1, w1, r) \<Rightarrow> download_each e1 w1 (i + 1) n vs))"

text \<open>What \<^verbatim>\<open>scan_versions_range_and_download\<close> does once the candidates are generated.\<close>

definition scan_candidates ::
  "engine \<Rightarrow> world \<Rightarrow> string list \<Rightarrow> engine \<times> world \<times> error option" where
  "scan_candidates e w all_versions =
     (let w1 = log w (Generated_msg (length all_versions)) ''INFO''
      in (case probe_all e w1 all_versions [] of
            (e1, w2, existing) \<Rightarrow>
              (let w3 = log w2 (Found_count_msg (length existing)) ''SUCCESS'';
                   e2 = e1\<lparr>found_versions := found_versions e1 \<union> set existing\<rparr>;
                   w4 = save_found_versions e2 w3
               in (case download_each e2 w4 1 (length existing) (sort existing) of
                     (e3, w5, None) \<Rightarrow> (e3, save_stats e3 w5, None)
                   | (e3, w5, Some err) \<Rightarrow> (e3, w5, Some err)))))"

definition scan_versions_range_and_download ::
  "engine \<Rightarrow> world \<Rightarrow> string \<Rightarrow> string \<Rightarrow> engine \<times> world \<times> error option" where
  "scan_versions_range_and_download e w start_version end_version =
     (let start_parts = split_on CHR ''.'' start_version;
          end_parts = split_on CHR ''.'' end_version
      in
      (case py_int (start_parts ! 0) of
         None \<Rightarrow> (e, w, Some ValueError)
       | Some start_major \<Rightarrow>
      (case (if length start_parts > 1 then py_int (start_parts ! 1) else Some 0) of
         None \<Rightarrow> (e, w, Some ValueError)
       | Some start_minor \<Rightarrow>
      (case py_int (end_parts ! 0) of
         None \<Rightarrow> (e, w, Some ValueError)
       | Some end_major \<Rightarrow>
      (case (if length end_parts > 1 then py_int (end_parts ! 1) else Some 50) of
         None \<Rightarrow> (e, w, Some ValueError)
       | Some end_minor \<Rightarrow>
           scan_candidates e w
             (generate_all_version_numbers start_major start_minor end_major end_minor))))))"

subsection \<open>scan_rss_for_versions\<close>

text \<open>
  The pattern
  \<^verbatim>\<open>RouterOS v?(\d+\.\d+(?:\.\d+)?(?:rc\d+)?(?:beta\d+)?)\<close>
  matched at the start of a string: the token of its group and what follows the match.
  Every repetition is greedy, and none can give back a character to let a later part
  match, since each is followed by something that is not a digit or is optional.
\<close>

definition strip_prefix :: "string \<Rightarrow> string \<Rightarrow> string option" where
  "strip_prefix p s = (if prefix p s then Some (drop (length p) s) else None)"

definition digits1 :: "string \<Rightarrow> (string \<times> string) option" where
  "digits1 s = (if takeWhile is_digit s = [] then None
                else Some (takeWhile is_digit s, dropWhile is_digit s))"

definition opt_group :: "string \<Rightarrow> string \<Rightarrow> string \<times> string" where
  "opt_group lit s =
     (case strip_prefix lit s of
        None \<Rightarrow> ([], s)
      | Some r \<Rightarrow> (case digits1 r of None \<Rightarrow> ([], s) | Some (ds, r') \<Rightarrow> (lit @ ds, r')))"

definition match_version :: "string \<Rightarrow> (string \<times> string) option" where
  "match_version s =
     (case strip_prefix ''RouterOS '' s of
        None \<Rightarrow> None
      | Some s1 \<Rightarrow>
          (case digits1 (case strip_prefix ''v'' s1 of None \<Rightarrow> s1 | Some r \<Rightarrow> r) of
             None \<Rightarrow> None
           | Some (major, s3) \<Rightarrow>
               (case strip_prefix ''.'' s3 of
                  None \<Rightarrow> None
                | Some s4 \<Rightarrow>
                    (case digits1 s4 of
                       None \<Rightarrow> None
                     | Some (minor, s5) \<Rightarrow>
                         (case opt_group ''.'' s5 of
                            (patch, s6) \<Rightarrow>
                              (case opt_group ''rc'' s6 of
                                 (rc, s7) \<Rightarrow>
                                   (case opt_group ''beta'' s7 of
                                      (beta, s8) \<Rightarrow>
                                        Some (major @ ''.'' @ minor @ patch @ rc @ beta, s8))))))))"

lemma digits1_length: "digits1 s = Some (ds, r) \<Longrightarrow> length r \<le> length s"
  by (auto simp: digits1_def length_dropWhile_le split: if_splits)

lemma strip_prefix_length: "strip_prefix p s = Some r \<Longrightarrow> length r + length p = length s"
  by (auto simp: strip_prefix_def prefix_def split: if_splits)

lemma opt_group_length: "opt_group lit s = (g, r) \<Longrightarrow> length r \<le> length s"
  by (auto simp: opt_group_def split: option.splits
           dest!: digits1_length strip_prefix_length)

lemma match_version_length: "match_version s = Some (tok, r) \<Longrightarrow> length r < length s"
  by (auto simp: match_version_def split: option.splits prod.splits
           dest!: digits1_length strip_prefix_length opt_group_length)

text \<open>\<^verbatim>\<open>re.findall\<close>: the matches from left to right, each search starting where the last match ended.\<close>

function findall_versions :: "string \<Rightarrow> string list" where
  "findall_versions s =
     (if s = [] then []
      else (case match_version s of
              Some (tok, rest) \<Rightarrow> tok # findall_versions rest
            | None \<Rightarrow> findall_versions (tl s)))"
  by pat_completeness auto
termination
  by (relation "measure length") (auto dest: match_version_length)

text \<open>
  Python iterates a set in an order of its own; the model takes the order of first
  occurrence.
\<close>

definition scan_rss_for_versions :: "engine \<Rightarrow> world \<Rightarrow> world \<times> string list" where
  "scan_rss_for_versions e w =
     (case session_get w RSS_URL of
        (w1, Transport_error) \<Rightarrow> (log w1 Rss_failed_msg ''WARNING'', [])
      | (w1, Reply status_code chunks broken) \<Rightarrow>
          if broken then (log w1 Rss_failed_msg ''WARNING'', [])
          else
            (let vers = remdups (findall_versions (concat chunks));
                 new = filter (\<lambda>v. v \<notin> found_versions e) vers
             in (fold (\<lambda>v w'. log w' (Rss_new_msg v) ''FOUND'') new w1, new)))"

subsection \<open>Runs of engine operations\<close>

datatype operation =
    Load_persisted
  | Check_version_exists string
  | Process_version string
  | Scan_versions_range_and_download string string
  | Scan_rss_for_versions
  | Save_found_versions
  | Save_stats

fun perform :: "operation \<Rightarrow> engine \<times> world \<Rightarrow> engine \<times> world" where
  "perform Load_persisted (e, w) = (load_persisted e w, w)"
| "perform (Check_version_exists v) (e, w) =
     (case check_version_exists e w v of (e1, w1, b) \<Rightarrow> (e1, w1))"
| "perform (Process_version v) (e, w) =
     (case process_version e w v of (e1, w1, r) \<Rightarrow> (e1, w1))"
| "perform (Scan_versions_range_and_download a b) (e, w) =
     (case scan_versions_range_and_download e w a b of (e1, w1, r) \<Rightarrow> (e1, w1))"
| "perform Scan_rss_for_versions (e, w) = (e, fst (scan_rss_for_versions e w))"
| "perform Save_found_versions (e, w) = (e, save_found_versions e w)"
| "perform Save_stats (e, w) = (e, save_stats e w)"

definition run :: "operation list \<Rightarrow> engine \<times> world \<Rightarrow> engine \<times> world" where
  "run ops s = fold perform ops s"

declare download_file.simps [simp del]
declare findall_versions.simps [simp del]
declare digits_of.simps [simp del]

subsection \<open>The range of the generator, in the words of the specification\<close>

text \<open>
  The pairs \<open>major.minor\<close> of a range: the minor is bounded to \<open>[start_minor, 99]\<close> on the
  start major, to \<open>[0, end_minor]\<close> on the end major and to \<open>[0, 99]\<close> on the majors
  between; on a range of one major both bounds apply.
\<close>

definition spec_in_range :: "int \<Rightarrow> int \<Rightarrow> int \<Rightarrow> int \<Rightarrow> int \<Rightarrow> int \<Rightarrow> bool" where
  "spec_in_range start_major start_minor end_major end_minor major minor =
     (start_major \<le> major \<and> major \<le> end_major
      \<and> (if major = start_major then start_minor else 0) \<le> minor
      \<and> minor \<le> (if major = end_major then end_minor else 99))"

text \<open>A text that can follow a number: it is empty or does not begin with a digit.\<close>

definition ends_number :: "string \<Rightarrow> bool" where
  "ends_number r = (case r of [] \<Rightarrow> True | c # cs \<Rightarrow> \<not> is_digit c)"

section \<open>Fixtures\<close>

text \<open>
  A concrete engine and a concrete world, for evaluating the model: an engine with a
  statistics object and nothing found yet, over an archive directory that is still empty,
  with the network given as a parameter.
\<close>

definition archive_engine :: "int \<Rightarrow> engine" where
  "archive_engine retries =
     \<lparr>output_dir = [''archive''], download_workers = 8, max_retries = retries,
      gui = Some \<lparr>stats = Map.empty, stats_text = Map.empty, stop_requested = Some False\<rparr>,
      version_exists_cache = Map.empty, found_versions = {}\<rparr>"

definition fresh_world :: "(nat \<Rightarrow> request \<Rightarrow> response) \<Rightarrow> world" where
  "fresh_world net =
     \<lparr>fs = [[] \<mapsto> Dir, [''archive''] \<mapsto> Dir], dir_size = 4096, answers = net,
      sent = [], slept = [], logged = [],
      utcnow = ''2024-01-01T00:00:00'', json_dump = (\<lambda>d. ''{}''),
      json_load_versions = (\<lambda>s. None)\<rparr>"

text \<open>The same world after an earlier run has left its versions file behind.\<close>

definition persisted_world :: world where
  "persisted_world =
     (fresh_world (\<lambda>k r. Transport_error))
       \<lparr>fs := (fs (fresh_world (\<lambda>k r. Transport_error)))
                ([''archive'', ''found_versions.json''] \<mapsto> File ''versions: 6.51, 7.1''),
        json_load_versions := (\<lambda>s. Some [''6.51'', ''7.1''])\<rparr>"


lemmas io_defs =
  try_download_def out_path_def path_exists_def st_size_def is_file_def mkdir_parents_def
  open_wb_def file_append_def unlink_def session_get_def session_head_def session_request_def
  sleep_def log_def increment_stat_def update_stat_def Let_def

lemmas fixture_defs = archive_engine_def fresh_world_def

section \<open>Properties of download_file\<close>

lemma write_chunks_frame:
  "write_chunks w p cs d = (w', d') \<Longrightarrow>
     sent w' = sent w \<and> slept w' = slept w \<and> logged w' = logged w \<and> answers w' = answers w"
  by (induction w p cs d rule: write_chunks.induct)
     (auto simp: file_append_def split: if_splits option.splits node.splits)

lemma mkdir_parents_frame:
  "mkdir_parents w p = Some w' \<Longrightarrow>
     sent w' = sent w \<and> slept w' = slept w \<and> logged w' = logged w \<and> answers w' = answers w"
  by (auto simp: mkdir_parents_def split: if_splits)

lemma open_wb_frame:
  "open_wb w p = Some w' \<Longrightarrow>
     sent w' = sent w \<and> slept w' = slept w \<and> logged w' = logged w \<and> answers w' = answers w"
  by (auto simp: open_wb_def split: if_splits)

lemma session_get_frame:
  "session_get w url = (w', r) \<Longrightarrow>
     sent w' = sent w @ [(GET, url)] \<and> slept w' = slept w \<and> logged w' = logged w
     \<and> fs w' = fs w \<and> r = answers w (length (sent w)) (GET, url)"
  by (auto simp: session_get_def session_request_def)

lemma increment_stat_frame [simp]:
  "found_versions (increment_stat e key amount) = found_versions e"
  "max_retries (increment_stat e key amount) = max_retries e"
  "output_dir (increment_stat e key amount) = output_dir e"
  "version_exists_cache (increment_stat e key amount) = version_exists_cache e"
  by (simp_all add: increment_stat_def split: option.splits)

lemma log_frame [simp]:
  "sent (log w m l) = sent w" "slept (log w m l) = slept w" "fs (log w m l) = fs w"
  "answers (log w m l) = answers w"
  by (simp_all add: log_def)

lemma try_download_frame:
  "try_download e w url version arch filename = (e1, w1, r) \<Longrightarrow>
     slept w1 = slept w \<and> length (sent w1) \<le> length (sent w) + 1
     \<and> max_retries e1 = max_retries e \<and> output_dir e1 = output_dir e
     \<and> found_versions e1 = found_versions e"
  unfolding try_download_def Let_def
  by (auto split: if_splits prod.splits response.splits option.splits
           dest!: write_chunks_frame mkdir_parents_frame open_wb_frame session_get_frame)

lemma download_file_returned:
  "try_download e w url version arch filename = (e1, w1, Returned b) \<Longrightarrow>
     download_file e w url version arch filename r = (e1, w1, b)"
  by (subst download_file.simps) simp

lemma download_file_retry:
  "try_download e w url version arch filename = (e1, w1, Raised) \<Longrightarrow>
   int r < max_retries e1 \<Longrightarrow>
     download_file e w url version arch filename r =
       download_file e1 (sleep (log w1 (Retry_msg (r + 1) filename (2 ^ r)) ''WARNING'') (2 ^ r))
         url version arch filename (r + 1)"
  by (subst download_file.simps) (simp add: Let_def)

lemma download_file_exhausted:
  "try_download e w url version arch filename = (e1, w1, Raised) \<Longrightarrow>
   \<not> int r < max_retries e1 \<Longrightarrow>
     download_file e w url version arch filename r =
       (increment_stat e1 ''files_failed'' 1,
        (let w2 = log w1 (Failed_msg filename) ''ERROR'';
             p = out_path (increment_stat e1 ''files_failed'' 1) version arch filename
         in if path_exists w2 p then (case unlink w2 p of None \<Rightarrow> w2 | Some w' \<Rightarrow> w') else w2),
        False)"
  by (subst download_file.simps) (simp add: Let_def)

lemma download_file_found_versions:
  "download_file e w url version arch filename r = (e', w', b) \<Longrightarrow>
     found_versions e' = found_versions e"
proof (induction e w url version arch filename r arbitrary: e' w' b rule: download_file.induct)
  case (1 e w url version arch filename r)
  obtain e1 w1 oc where t: "try_download e w url version arch filename = (e1, w1, oc)"
    by (cases "try_download e w url version arch filename") auto
  from try_download_frame [OF t] have fr: "found_versions e1 = found_versions e"
    by simp
  show ?case
  proof (cases oc)
    case (Returned x)
    with t "1.prems" fr show ?thesis by (simp add: download_file_returned)
  next
    case Raised
    show ?thesis
    proof (cases "int r < max_retries e1")
      case True
      let ?w3 = "sleep (log w1 (Retry_msg (r + 1) filename (2 ^ r)) ''WARNING'') (2 ^ r)"
      from t Raised True "1.prems"
      have rec: "download_file e1 ?w3 url version arch filename (r + 1) = (e', w', b)"
        by (simp add: download_file_retry)
      from "1.IH" [OF t [symmetric] refl Raised True refl refl refl rec] fr
      show ?thesis by simp
    next
      case False
      from t Raised have "try_download e w url version arch filename = (e1, w1, Raised)"
        by simp
      from download_file_exhausted [OF this False] "1.prems"
      have "e' = increment_stat e1 ''files_failed'' 1" by simp
      with fr show ?thesis by simp
    qed
  qed
qed


text \<open>
  C1. A target whose fetch fails on every attempt should end with no file at its
  destination. The code does not ensure it. Here the first attempt receives two bytes and
  then loses the connection, and every later request fails to connect. The retry enters
  \<^verbatim>\<open>download_file\<close> again from the top, finds the two bytes on disk, takes them for a
  finished download and returns success: the partial file stays, counted as skipped, and
  the clean-up of the exhaustion branch is never reached.
\<close>

theorem download_file_partial_file_skipped:
  "(case download_file (archive_engine 3)
           (fresh_world (\<lambda>k r. if k = 0 then Reply 200 [''ab''] True else Transport_error))
           ''u'' ''7.1'' ''arm'' ''f.npk'' 0 of
      (e', w', b) \<Rightarrow>
        b \<and> fs w' [''archive'', ''7.1'', ''arm'', ''f.npk''] = Some (File ''ab'')
        \<and> sent w' = [(GET, ''u'')] \<and> slept w' = [1]
        \<and> map_option (\<lambda>g. (stats g ''files_skipped'', stats g ''files_failed'')) (gui e')
            = Some (Some 1, None))"
  by (simp add: download_file.simps io_defs fixture_defs)




text \<open>
  C4. When a non-empty file is at the destination, \<^verbatim>\<open>download_file\<close> returns
  \<^verbatim>\<open>True\<close> without sending a request, leaves the file system as it is and adds one to
  \<^verbatim>\<open>files_skipped\<close>; calling it again for the same target does the same.
\<close>

theorem download_file_skip:
  assumes "fs w (out_path e version arch filename) = Some (File c)" and "c \<noteq> []"
  shows "(case download_file e w url version arch filename retry_count of
            (e', w', b) \<Rightarrow>
              b \<and> sent w' = sent w \<and> fs w' = fs w
              \<and> e' = increment_stat e ''files_skipped'' 1
              \<and> (case gui e of
                    None \<Rightarrow> gui e' = None
                  | Some g \<Rightarrow>
                      map_option (\<lambda>g'. stats g' ''files_skipped'') (gui e')
                        = Some (Some ((case stats g ''files_skipped'' of None \<Rightarrow> 0 | Some n \<Rightarrow> n) + 1)))
              \<and> (case download_file e' w' url version arch filename 0 of
                    (e'', w'', b') \<Rightarrow> b' \<and> sent w'' = sent w \<and> fs w'' = fs w))"
  using assms
  by (simp add: download_file.simps io_defs split: option.splits)

theorem download_file_skip_witness:
  "fs ((fresh_world (\<lambda>k r. Transport_error))
         \<lparr>fs := (fs (fresh_world (\<lambda>k r. Transport_error)))
                  ([''archive'', ''7.1'', ''arm'', ''f.npk''] \<mapsto> File ''ab'')\<rparr>)
      (out_path (archive_engine 3) ''7.1'' ''arm'' ''f.npk'') = Some (File ''ab'')
   \<and> ''ab'' \<noteq> []
   \<and> (case download_file (archive_engine 3)
             ((fresh_world (\<lambda>k r. Transport_error))
                \<lparr>fs := (fs (fresh_world (\<lambda>k r. Transport_error)))
                         ([''archive'', ''7.1'', ''arm'', ''f.npk''] \<mapsto> File ''ab'')\<rparr>)
             ''u'' ''7.1'' ''arm'' ''f.npk'' 0 of
         (e', w', b) \<Rightarrow>
           b \<and> sent w' = [] \<and> fs w' [''archive'', ''7.1'', ''arm'', ''f.npk''] = Some (File ''ab'')
           \<and> map_option (\<lambda>g'. stats g' ''files_skipped'') (gui e') = Some (Some 1))"
proof -
  let ?w = "(fresh_world (\<lambda>k r. Transport_error))
         \<lparr>fs := (fs (fresh_world (\<lambda>k r. Transport_error)))
                  ([''archive'', ''7.1'', ''arm'', ''f.npk''] \<mapsto> File ''ab'')\<rparr>"
  have h1: "fs ?w (out_path (archive_engine 3) ''7.1'' ''arm'' ''f.npk'') = Some (File ''ab'')"
    by (simp add: out_path_def fixture_defs)
  have h2: "''ab'' \<noteq> []" by simp
  from download_file_skip [OF h1 h2, of "''u''" 0] h1 h2 show ?thesis
    by (simp add: fixture_defs increment_stat_def split: prod.splits)
qed

text \<open>
  C6. When the download request is answered with 404, \<^verbatim>\<open>download_file\<close> returns
  \<^verbatim>\<open>False\<close> at once, whatever the retry count: that one request is the only one sent,
  there is no sleep, and nothing is logged.
\<close>

theorem download_file_404:
  assumes "\<not> (path_exists w (out_path e version arch filename)
              \<and> 0 < st_size w (out_path e version arch filename))"
    and "answers w (length (sent w)) (GET, url) = Reply 404 chunks broken"
  shows "(case download_file e w url version arch filename retry_count of
            (e', w', b) \<Rightarrow>
              \<not> b \<and> sent w' = sent w @ [(GET, url)] \<and> slept w' = slept w
              \<and> logged w' = logged w)"
  using assms
  by (simp add: download_file.simps try_download_def session_get_def session_request_def Let_def)

theorem download_file_404_witness:
  "\<not> (path_exists (fresh_world (\<lambda>k r. Reply 404 [] False)) (out_path (archive_engine 3) ''7.1'' ''arm'' ''f.npk'')
       \<and> 0 < st_size (fresh_world (\<lambda>k r. Reply 404 [] False)) (out_path (archive_engine 3) ''7.1'' ''arm'' ''f.npk''))
   \<and> answers (fresh_world (\<lambda>k r. Reply 404 [] False))
        (length (sent (fresh_world (\<lambda>k r. Reply 404 [] False)))) (GET, ''u'') = Reply 404 [] False
   \<and> (case download_file (archive_engine 3) (fresh_world (\<lambda>k r. Reply 404 [] False))
             ''u'' ''7.1'' ''arm'' ''f.npk'' 0 of
         (e', w', b) \<Rightarrow> \<not> b \<and> sent w' = [(GET, ''u'')] \<and> slept w' = [] \<and> logged w' = [])"
proof -
  let ?w = "fresh_world (\<lambda>k r. Reply 404 [] False)"
  have h1: "\<not> (path_exists ?w (out_path (archive_engine 3) ''7.1'' ''arm'' ''f.npk'')
       \<and> 0 < st_size ?w (out_path (archive_engine 3) ''7.1'' ''arm'' ''f.npk''))"
    by (simp add: path_exists_def out_path_def fixture_defs)
  have h2: "answers ?w (length (sent ?w)) (GET, ''u'') = Reply 404 [] False"
    by (simp add: fixture_defs)
  from download_file_404 [OF h1 h2, of 0] h1 h2 show ?thesis
    by (simp add: fixture_defs split: prod.splits)
qed

text \<open>
  C9. When nothing exists at the destination and the download request is answered with
  404, the engine, and with it every counter, is unchanged, and so is the file system: no
  file and no directory is created.
\<close>

theorem download_file_404_invisible:
  assumes "fs w (out_path e version arch filename) = None"
    and "answers w (length (sent w)) (GET, url) = Reply 404 chunks broken"
  shows "(case download_file e w url version arch filename retry_count of
            (e', w', b) \<Rightarrow>
              \<not> b \<and> gui e' = gui e \<and> e' = e \<and> fs w' = fs w
              \<and> fs w' (out_path e version arch filename) = None
              \<and> fs w' (butlast (out_path e version arch filename)) = fs w (butlast (out_path e version arch filename)))"
  using assms
  by (simp add: download_file.simps try_download_def session_get_def session_request_def Let_def
        path_exists_def)

theorem download_file_404_invisible_witness:
  "fs (fresh_world (\<lambda>k r. Reply 404 [''gone''] False)) (out_path (archive_engine 3) ''7.1'' ''arm'' ''f.npk'') = None
   \<and> answers (fresh_world (\<lambda>k r. Reply 404 [''gone''] False))
        (length (sent (fresh_world (\<lambda>k r. Reply 404 [''gone''] False)))) (GET, ''u'') = Reply 404 [''gone''] False
   \<and> (case download_file (archive_engine 3) (fresh_world (\<lambda>k r. Reply 404 [''gone''] False))
             ''u'' ''7.1'' ''arm'' ''f.npk'' 0 of
         (e', w', b) \<Rightarrow> \<not> b \<and> gui e' = gui (archive_engine 3)
            \<and> fs w' [''archive'', ''7.1'', ''arm'', ''f.npk''] = None
            \<and> fs w' [''archive'', ''7.1'', ''arm''] = None
            \<and> fs w' [''archive'', ''7.1''] = None)"
proof -
  let ?w = "fresh_world (\<lambda>k r. Reply 404 [''gone''] False)"
  have h1: "fs ?w (out_path (archive_engine 3) ''7.1'' ''arm'' ''f.npk'') = None"
    by (simp add: out_path_def fixture_defs)
  have h2: "answers ?w (length (sent ?w)) (GET, ''u'') = Reply 404 [''gone''] False"
    by (simp add: fixture_defs)
  from download_file_404_invisible [OF h1 h2, of 0] h1 h2 show ?thesis
    by (simp add: fixture_defs split: prod.splits)
qed

section \<open>Properties of the existence probe\<close>

lemma check_version_exists_frame:
  "check_version_exists e w version = (e1, w1, b) \<Longrightarrow>
     found_versions e1 = found_versions e \<and> gui e1 = gui e \<and> fs w1 = fs w
     \<and> output_dir e1 = output_dir e \<and> max_retries e1 = max_retries e
     \<and> slept w1 = slept w \<and> logged w1 = logged w"
  by (auto simp: check_version_exists_def cache_result_def session_head_def session_request_def
           split: option.splits prod.splits response.splits if_splits)



text \<open>
  C10. When the probe of a version answers \<^verbatim>\<open>False\<close>, \<^verbatim>\<open>process_version\<close> returns 0
  and does nothing beyond the probe itself: the set of found versions, the statistics
  object and the file system are as before. This holds for every caller, so a version
  taken from the feed is probed again and passed over when the probe fails.
\<close>

theorem process_version_absent:
  assumes "check_version_exists e w version = (e1, w1, False)"
  shows "process_version e w version = (e1, w1, 0)
         \<and> found_versions e1 = found_versions e \<and> gui e1 = gui e \<and> fs w1 = fs w"
  using assms check_version_exists_frame [OF assms]
  by (simp add: process_version_def)

theorem process_version_absent_witness:
  "check_version_exists (archive_engine 3) (fresh_world (\<lambda>k r. Transport_error)) ''7.99''
     = (cache_result (archive_engine 3) ''7.99'' False,
        (fresh_world (\<lambda>k r. Transport_error))
          \<lparr>sent := [(HEAD, ''https://download.mikrotik.com/routeros/7.99/'')]\<rparr>, False)
   \<and> process_version (archive_engine 3) (fresh_world (\<lambda>k r. Transport_error)) ''7.99''
     = (cache_result (archive_engine 3) ''7.99'' False,
        (fresh_world (\<lambda>k r. Transport_error))
          \<lparr>sent := [(HEAD, ''https://download.mikrotik.com/routeros/7.99/'')]\<rparr>, 0)
   \<and> found_versions (cache_result (archive_engine 3) ''7.99'' False) = {}
   \<and> gui (cache_result (archive_engine 3) ''7.99'' False) = gui (archive_engine 3)
   \<and> fs ((fresh_world (\<lambda>k r. Transport_error))
          \<lparr>sent := [(HEAD, ''https://download.mikrotik.com/routeros/7.99/'')]\<rparr>)
      = fs (fresh_world (\<lambda>k r. Transport_error))"
proof -
  have h: "check_version_exists (archive_engine 3) (fresh_world (\<lambda>k r. Transport_error)) ''7.99''
     = (cache_result (archive_engine 3) ''7.99'' False,
        (fresh_world (\<lambda>k r. Transport_error))
          \<lparr>sent := [(HEAD, ''https://download.mikrotik.com/routeros/7.99/'')]\<rparr>, False)"
    by (simp add: fixture_defs BASE_CDN_URL_def check_version_exists_def
          session_head_def session_request_def)
  from h process_version_absent [OF h] show ?thesis
    by (simp add: fixture_defs cache_result_def)
qed

section \<open>The set of found versions only grows\<close>

lemma download_all_found_versions:
  "download_all e w version urls = (e', w') \<Longrightarrow> found_versions e' = found_versions e"
proof (induction e w version urls arbitrary: e' w' rule: download_all.induct)
  case (1 e w version)
  then show ?case by simp
next
  case (2 e w version url arch fname urls)
  obtain e1 w1 b where d: "download_file e w url version arch fname 0 = (e1, w1, b)"
    by (cases "download_file e w url version arch fname 0") auto
  from "2.prems" d have "download_all e1 w1 version urls = (e', w')" by simp
  from "2.IH" [OF d [symmetric] refl this] download_file_found_versions [OF d]
  show ?case by simp
qed

lemma update_stat_found_versions [simp]:
  "found_versions (update_stat e key v) = found_versions e"
  by (simp add: update_stat_def split: option.splits)

lemma process_version_found_versions:
  "process_version e w version = (e', w', r) \<Longrightarrow>
     found_versions e \<subseteq> found_versions e' \<and> found_versions e' \<subseteq> insert version (found_versions e)"
proof -
  assume p: "process_version e w version = (e', w', r)"
  obtain e1 w1 b where c: "check_version_exists e w version = (e1, w1, b)"
    by (cases "check_version_exists e w version") auto
  note fr = check_version_exists_frame [OF c]
  show ?thesis
  proof (cases b)
    case False
    with p c fr show ?thesis by (auto simp: process_version_def)
  next
    case True
    with p c obtain e5 w5 where
      d: "download_all (update_stat (increment_stat
             (e1\<lparr>found_versions := insert version (found_versions e1)\<rparr>) ''versions_found'' 1)
             ''current_version'' version)
           (log (log (log w1 Banner_msg ''INFO'') (Version_found_msg version) ''FOUND'') Banner_msg ''INFO'')
           version (build_download_urls version) = (e5, w5)" and "e' = e5"
      by (auto simp: process_version_def Let_def split: prod.splits)
    from download_all_found_versions [OF d] \<open>e' = e5\<close> fr show ?thesis by auto
  qed
qed

lemma probe_all_found_versions:
  "probe_all e w vs existing = (e', w', existing') \<Longrightarrow> found_versions e' = found_versions e"
proof (induction e w vs existing arbitrary: e' w' existing' rule: probe_all.induct)
  case (1 e w existing)
  then show ?case by simp
next
  case (2 e w v vs existing)
  obtain e1 w1 b where c: "check_version_exists e w v = (e1, w1, b)"
    by (cases "check_version_exists e w v") auto
  note fr = check_version_exists_frame [OF c]
  show ?case
  proof (cases b)
    case True
    with "2.prems" c have
      "probe_all (increment_stat e1 ''versions_tested'' 1) (log w1 (Found_version_msg v) ''FOUND'')
         vs (existing @ [v]) = (e', w', existing')"
      by (simp add: Let_def)
    from "2.IH"(1) [OF c [symmetric] refl refl True this] fr show ?thesis by simp
  next
    case False
    with "2.prems" c have
      "probe_all (increment_stat e1 ''versions_tested'' 1) w1 vs existing = (e', w', existing')"
      by (simp add: Let_def)
    from "2.IH"(2) [OF c [symmetric] refl refl False this] fr show ?thesis by simp
  qed
qed

lemma download_each_found_versions:
  "download_each e w i n vs = (e', w', r) \<Longrightarrow> found_versions e \<subseteq> found_versions e'"
proof (induction e w i n vs arbitrary: e' w' r rule: download_each.induct)
  case (1 e w i n)
  then show ?case by simp
next
  case (2 e w i n v vs)
  let ?stop = "(case gui e of None \<Rightarrow> Some False | Some g \<Rightarrow> stop_requested g)"
  show ?case
  proof (cases "?stop = Some False")
    case False
    with "2.prems" show ?thesis
      by (cases ?stop) (auto split: bool.splits)
  next
    case True
    obtain e1 w1 r1 where p: "process_version e (log w (Processing_msg i n v) ''INFO'') v = (e1, w1, r1)"
      by (cases "process_version e (log w (Processing_msg i n v) ''INFO'') v") auto
    from "2.prems" True p have "download_each e1 w1 (i + 1) n vs = (e', w', r)"
      by simp
    from "2.IH" [OF True refl p [symmetric] refl this] process_version_found_versions [OF p]
    show ?thesis by auto
  qed
qed

lemma scan_candidates_found_versions:
  assumes "scan_candidates e w vs = (e', w', r)"
  shows "found_versions e \<subseteq> found_versions e'"
proof -
  let ?w1 = "log w (Generated_msg (length vs)) ''INFO''"
  obtain e1 w2 existing where p: "probe_all e ?w1 vs [] = (e1, w2, existing)"
    by (cases "probe_all e ?w1 vs []") auto
  let ?e2 = "e1\<lparr>found_versions := found_versions e1 \<union> set existing\<rparr>"
  let ?w4 = "save_found_versions ?e2 (log w2 (Found_count_msg (length existing)) ''SUCCESS'')"
  obtain e3 w5 r3 where d: "download_each ?e2 ?w4 1 (length existing) (sort existing) = (e3, w5, r3)"
    by (cases "download_each ?e2 ?w4 1 (length existing) (sort existing)") auto
  from assms p d have "e' = e3"
    by (cases r3) (simp_all add: scan_candidates_def Let_def)
  with probe_all_found_versions [OF p] download_each_found_versions [OF d]
  show ?thesis by auto
qed

lemma scan_found_versions:
  assumes "scan_versions_range_and_download e w a b = (e', w', r)"
  shows "found_versions e \<subseteq> found_versions e'"
proof -
  from assms consider "e' = e" | vs where "scan_candidates e w vs = (e', w', r)"
    unfolding scan_versions_range_and_download_def Let_def
    by (auto split: option.splits)
  then show ?thesis
    by cases (auto dest: scan_candidates_found_versions)
qed

lemma fold_insert_set: "fold insert vs S = set vs \<union> S"
  by (induction vs arbitrary: S) auto

lemma load_persisted_found_versions: "found_versions e \<subseteq> found_versions (load_persisted e w)"
  by (auto simp: load_persisted_def fold_insert_set split: option.splits node.splits)

lemma perform_found_versions:
  "found_versions (fst s) \<subseteq> found_versions (fst (perform op s))"
proof (cases s)
  case (Pair e w)
  show ?thesis
  proof (cases op)
    case Load_persisted
    with Pair show ?thesis using load_persisted_found_versions by simp
  next
    case (Check_version_exists v)
    with Pair show ?thesis
      by (auto split: prod.splits dest!: check_version_exists_frame)
  next
    case (Process_version v)
    with Pair show ?thesis
      by (auto split: prod.splits dest!: process_version_found_versions)
  next
    case (Scan_versions_range_and_download a b)
    with Pair show ?thesis
      by (auto split: prod.splits dest!: scan_found_versions)
  qed (use Pair in auto)
qed

lemma run_found_versions: "found_versions (fst s) \<subseteq> found_versions (fst (run ops s))"
proof (induction ops arbitrary: s)
  case Nil
  show ?case by (simp add: run_def)
next
  case (Cons op ops)
  have "found_versions (fst s) \<subseteq> found_versions (fst (perform op s))"
    by (rule perform_found_versions)
  also have "\<dots> \<subseteq> found_versions (fst (run ops (perform op s)))"
    by (rule Cons.IH)
  finally show ?case by (simp add: run_def)
qed

text \<open>
  C7. Whatever operations the engine performs, in whatever order (loading the persisted
  versions, probing, \<^verbatim>\<open>process_version\<close>, the range scan, the feed scan, saving versions
  or statistics), the set of found versions at the start is contained in the set at the
  end, and the set after any prefix of the run is contained in the set after the whole
  run: no operation removes a version.
\<close>

theorem found_versions_monotone:
  "found_versions e \<subseteq> found_versions (fst (run ops (e, w)))
   \<and> found_versions (fst (run ops (e, w))) \<subseteq> found_versions (fst (run (ops @ later) (e, w)))"
proof -
  have "run (ops @ later) (e, w) = run later (run ops (e, w))"
    by (simp add: run_def)
  with run_found_versions [of "(e, w)" ops] run_found_versions [of "run ops (e, w)" later]
  show ?thesis by simp
qed

theorem found_versions_monotone_witness:
  "found_versions (archive_engine 3)
     \<subseteq> found_versions (fst (run [Load_persisted, Process_version ''7.2'']
                                (archive_engine 3, persisted_world)))
   \<and> found_versions (fst (run [Load_persisted, Process_version ''7.2'']
                                (archive_engine 3, persisted_world)))
     \<subseteq> found_versions (fst (run ([Load_persisted, Process_version ''7.2'']
                                   @ [Save_found_versions, Scan_rss_for_versions])
                                (archive_engine 3, persisted_world)))
   \<and> found_versions (fst (run [Load_persisted] (archive_engine 3, persisted_world)))
       = {''6.51'', ''7.1''}"
proof -
  have "found_versions (fst (run [Load_persisted] (archive_engine 3, persisted_world)))
       = {''6.51'', ''7.1''}"
    by (auto simp: run_def load_persisted_def versions_file_def path_exists_def
          persisted_world_def fixture_defs)
  with found_versions_monotone [of "archive_engine 3" "[Load_persisted, Process_version ''7.2'']"
         persisted_world "[Save_found_versions, Scan_rss_for_versions]"]
  show ?thesis by simp
qed

section \<open>The delta of the feed\<close>





section \<open>The generated candidates\<close>

subsection \<open>Decimal numbers\<close>

lemma digit_char_inj: "d < 10 \<Longrightarrow> d' < 10 \<Longrightarrow> digit_char d = digit_char d' \<Longrightarrow> d = d'"
proof -
  assume "d < 10" "d' < 10" "digit_char d = digit_char d'"
  moreover have "distinct ''0123456789''" by simp
  moreover have "length ''0123456789'' = 10" by simp
  ultimately show ?thesis
    unfolding digit_char_def by (metis nth_eq_iff_index_eq)
qed

lemma digit_char_is_digit: "d < 10 \<Longrightarrow> is_digit (digit_char d)"
proof -
  assume "d < 10"
  moreover have "length ''0123456789'' = 10" by simp
  ultimately have "''0123456789'' ! d \<in> set ''0123456789''"
    by (metis nth_mem)
  then show ?thesis
    unfolding digit_char_def is_digit_def .
qed

lemma digits_of_small: "n < 10 \<Longrightarrow> digits_of n = [digit_char n]"
  by (simp add: digits_of.simps)

lemma digits_of_large:
  "\<not> n < 10 \<Longrightarrow> digits_of n = digits_of (n div 10) @ [digit_char (n mod 10)]"
  by (subst digits_of.simps) simp

lemma digits_of_not_Nil: "digits_of n \<noteq> []"
  by (cases "n < 10") (simp_all add: digits_of_small digits_of_large)

lemma digits_of_digits: "c \<in> set (digits_of n) \<Longrightarrow> is_digit c"
proof (induction n rule: digits_of.induct)
  case (1 n)
  show ?case
  proof (cases "n < 10")
    case True
    with "1.prems" show ?thesis by (simp add: digits_of_small digit_char_is_digit)
  next
    case False
    with "1.prems" "1.IH" show ?thesis
      by (auto simp: digits_of_large digit_char_is_digit)
  qed
qed

lemma digits_of_inj: "digits_of n = digits_of m \<Longrightarrow> n = m"
proof (induction n arbitrary: m rule: digits_of.induct)
  case (1 n)
  show ?case
  proof (cases "n < 10")
    case True
    show ?thesis
    proof (cases "m < 10")
      case True
      with \<open>n < 10\<close> "1.prems" show ?thesis
        by (simp add: digits_of_small digit_char_inj)
    next
      case False
      with \<open>n < 10\<close> "1.prems" digits_of_not_Nil [of "m div 10"] show ?thesis
        by (simp add: digits_of_small digits_of_large)
    qed
  next
    case False
    show ?thesis
    proof (cases "m < 10")
      case True
      with False "1.prems" digits_of_not_Nil [of "n div 10"] show ?thesis
        by (simp add: digits_of_small digits_of_large)
    next
      case False
      with \<open>\<not> n < 10\<close> "1.prems"
      have eq: "digits_of (n div 10) = digits_of (m div 10)"
        and last: "digit_char (n mod 10) = digit_char (m mod 10)"
        by (simp_all add: digits_of_large)
      from "1.IH" [OF \<open>\<not> n < 10\<close> eq] have "n div 10 = m div 10" .
      moreover from last have "n mod 10 = m mod 10"
        by (intro digit_char_inj) simp_all
      ultimately show ?thesis
        by (metis div_mult_mod_eq)
    qed
  qed
qed

lemma minus_not_digit: "\<not> is_digit CHR ''-''"
  by (simp add: is_digit_def)

lemma str_int_shape: "\<exists>c ds. str_int i = c # ds \<and> (\<forall>x\<in>set ds. is_digit x)"
proof (cases "i < 0")
  case True
  then show ?thesis by (auto simp: str_int_def dest: digits_of_digits)
next
  case False
  obtain c ds where "digits_of (nat i) = c # ds"
    using digits_of_not_Nil [of "nat i"] by (cases "digits_of (nat i)") auto
  with False digits_of_digits [of _ "nat i"] show ?thesis
    by (auto simp: str_int_def)
qed

lemma str_int_inj: "str_int i = str_int j \<Longrightarrow> i = j"
proof -
  assume eq: "str_int i = str_int j"
  have hd: "is_digit (hd (digits_of n))" for n
    using digits_of_not_Nil [of n] digits_of_digits [of "hd (digits_of n)" n] by simp
  show ?thesis
  proof (cases "i < 0")
    case True
    show ?thesis
    proof (cases "j < 0")
      case True
      with \<open>i < 0\<close> eq have "digits_of (nat (- i)) = digits_of (nat (- j))"
        by (simp add: str_int_def)
      from digits_of_inj [OF this] True \<open>i < 0\<close> show ?thesis by simp
    next
      case False
      with \<open>i < 0\<close> eq have "CHR ''-'' # digits_of (nat (- i)) = digits_of (nat j)"
        by (simp add: str_int_def)
      with hd [of "nat j"] minus_not_digit show ?thesis
        by (cases "digits_of (nat j)") auto
    qed
  next
    case False
    show ?thesis
    proof (cases "j < 0")
      case True
      with False eq have "digits_of (nat i) = CHR ''-'' # digits_of (nat (- j))"
        by (simp add: str_int_def)
      with hd [of "nat i"] minus_not_digit show ?thesis
        by (cases "digits_of (nat i)") auto
    next
      case False
      with \<open>\<not> i < 0\<close> eq have "digits_of (nat i) = digits_of (nat j)"
        by (simp add: str_int_def)
      from digits_of_inj [OF this] False \<open>\<not> i < 0\<close> show ?thesis by simp
    qed
  qed
qed

lemma takeWhile_digits:
  "\<forall>x\<in>set ds. is_digit x \<Longrightarrow> ends_number r \<Longrightarrow> takeWhile is_digit (ds @ r) = ds"
  by (cases r) (simp_all add: ends_number_def takeWhile_append2)

lemma number_cancel:
  assumes "str_int i @ r = str_int j @ r'" and "ends_number r" and "ends_number r'"
  shows "i = j \<and> r = r'"
proof -
  obtain c ds where i: "str_int i = c # ds" "\<forall>x\<in>set ds. is_digit x"
    using str_int_shape [of i] by blast
  obtain c' ds' where j: "str_int j = c' # ds'" "\<forall>x\<in>set ds'. is_digit x"
    using str_int_shape [of j] by blast
  from assms(1) i j have "c = c'" and "ds @ r = ds' @ r'" by simp_all
  then have "takeWhile is_digit (ds @ r) = takeWhile is_digit (ds' @ r')" by simp
  also have "takeWhile is_digit (ds @ r) = ds"
    by (rule takeWhile_digits [OF i(2) assms(2)])
  also have "takeWhile is_digit (ds' @ r') = ds'"
    by (rule takeWhile_digits [OF j(2) assms(3)])
  finally have "ds = ds'" .
  with \<open>c = c'\<close> i j have "str_int i = str_int j" by simp
  with assms(1) str_int_inj show ?thesis by auto
qed

lemma ends_number_simps [simp]:
  "ends_number []" "ends_number (CHR ''.'' # s)" "ends_number (CHR ''r'' # s)"
  "ends_number (CHR ''b'' # s)"
  by (simp_all add: ends_number_def is_digit_def)

lemma distinct_concat_map:
  assumes "distinct xs"
    and "\<And>x. x \<in> set xs \<Longrightarrow> distinct (f x)"
    and "\<And>x y. x \<in> set xs \<Longrightarrow> y \<in> set xs \<Longrightarrow> x \<noteq> y \<Longrightarrow> set (f x) \<inter> set (f y) = {}"
  shows "distinct (concat (map f xs))"
  using assms
proof (induction xs)
  case Nil
  show ?case by simp
next
  case (Cons a xs)
  have "distinct (concat (map f xs))"
    by (rule Cons.IH) (use Cons.prems in auto)
  moreover have "distinct (f a)" using Cons.prems(2) by simp
  moreover have "set (f a) \<inter> set (f y) = {}" if "y \<in> set xs" for y
    using Cons.prems(3) [of a y] Cons.prems(1) that by auto
  ultimately show ?case by auto
qed

lemma distinct_count_list: "distinct xs \<Longrightarrow> x \<in> set xs \<Longrightarrow> count_list xs x = 1"
  by (induction xs) auto

subsection \<open>One patch\<close>

lemma patch_versions_shape:
  "x \<in> set (patch_versions base p) \<Longrightarrow> \<exists>t. x = base @ ''.'' @ str_int p @ t \<and> ends_number t"
  by (auto simp: patch_versions_def)

lemma distinct_patch_versions: "distinct (patch_versions base p)"
  by (auto simp: patch_versions_def distinct_map inj_on_def dest: str_int_inj)

lemma patch_versions_disjoint:
  assumes "p \<noteq> p'"
  shows "set (patch_versions base p) \<inter> set (patch_versions base p') = {}"
proof (rule ccontr)
  assume "\<not> ?thesis"
  then obtain x where "x \<in> set (patch_versions base p)" "x \<in> set (patch_versions base p')"
    by auto
  then obtain t t' where "x = base @ ''.'' @ str_int p @ t" "ends_number t"
    "x = base @ ''.'' @ str_int p' @ t'" "ends_number t'"
    by (blast dest: patch_versions_shape)
  then have "str_int p @ t = str_int p' @ t'" by simp
  from number_cancel [OF this \<open>ends_number t\<close> \<open>ends_number t'\<close>] assms show False by simp
qed

lemma length_patch_versions: "length (patch_versions base p) = 11"
  by (simp add: patch_versions_def)

subsection \<open>One minor version\<close>

lemma minor_versions_shape:
  "x \<in> set (minor_versions major minor) \<Longrightarrow>
     \<exists>s. x = str_int major @ ''.'' @ str_int minor @ s \<and> ends_number s"
  by (auto simp: minor_versions_def Let_def dest!: patch_versions_shape)

lemma distinct_minor_versions: "distinct (minor_versions major minor)"
proof -
  let ?base = "str_int major @ ''.'' @ str_int minor"
  have "?base \<notin> set (concat (map (patch_versions ?base) [1..20]))"
    by (auto dest!: patch_versions_shape)
  moreover have "distinct (concat (map (patch_versions ?base) [1..20]))"
    by (rule distinct_concat_map)
       (simp_all add: distinct_patch_versions patch_versions_disjoint)
  ultimately show ?thesis by (simp add: minor_versions_def Let_def)
qed

lemma minor_versions_disjoint:
  assumes "minor \<noteq> minor'"
  shows "set (minor_versions major minor) \<inter> set (minor_versions major minor') = {}"
proof (rule ccontr)
  assume "\<not> ?thesis"
  then obtain x where "x \<in> set (minor_versions major minor)" "x \<in> set (minor_versions major minor')"
    by auto
  then obtain s s' where "x = str_int major @ ''.'' @ str_int minor @ s" "ends_number s"
    "x = str_int major @ ''.'' @ str_int minor' @ s'" "ends_number s'"
    by (blast dest: minor_versions_shape)
  then have "str_int minor @ s = str_int minor' @ s'" by simp
  from number_cancel [OF this \<open>ends_number s\<close> \<open>ends_number s'\<close>] assms show False by simp
qed

lemma length_minor_versions: "length (minor_versions major minor) = 221"
  by (simp add: minor_versions_def Let_def length_concat o_def length_patch_versions sum_list_triv)

subsection \<open>One major version, and the whole range\<close>

lemma major_versions_shape:
  "x \<in> set (major_versions a b c d major) \<Longrightarrow> \<exists>s. x = str_int major @ s \<and> ends_number s"
  by (auto simp: major_versions_def Let_def dest!: minor_versions_shape)

lemma distinct_major_versions: "distinct (major_versions a b c d major)"
  unfolding major_versions_def Let_def
  by (rule distinct_concat_map)
     (simp_all add: distinct_minor_versions minor_versions_disjoint)

lemma major_versions_disjoint:
  assumes "major \<noteq> major'"
  shows "set (major_versions a b c d major) \<inter> set (major_versions a b c d major') = {}"
proof (rule ccontr)
  assume "\<not> ?thesis"
  then obtain x where "x \<in> set (major_versions a b c d major)"
    "x \<in> set (major_versions a b c d major')"
    by auto
  then obtain s s' where "x = str_int major @ s" "ends_number s"
    "x = str_int major' @ s'" "ends_number s'"
    by (blast dest: major_versions_shape)
  then have "str_int major @ s = str_int major' @ s'" by simp
  from number_cancel [OF this \<open>ends_number s\<close> \<open>ends_number s'\<close>] assms show False by simp
qed

lemma distinct_generate_all_version_numbers:
  "distinct (generate_all_version_numbers a b c d)"
  unfolding generate_all_version_numbers_def
  by (rule distinct_concat_map)
     (simp_all add: distinct_major_versions major_versions_disjoint)

lemma in_generate_all_version_numbers:
  "x \<in> set (generate_all_version_numbers a b c d) \<longleftrightarrow>
     (\<exists>major minor. spec_in_range a b c d major minor \<and> x \<in> set (minor_versions major minor))"
proof -
  have "x \<in> set (generate_all_version_numbers a b c d) \<longleftrightarrow>
     (\<exists>major\<in>{a..c}. \<exists>minor\<in>{(if major = a then b else 0)..(if major = c then d else 99)}.
         x \<in> set (minor_versions major minor))"
    by (simp add: generate_all_version_numbers_def major_versions_def Let_def split del: if_split)
  also have "\<dots> \<longleftrightarrow>
     (\<exists>major minor. spec_in_range a b c d major minor \<and> x \<in> set (minor_versions major minor))"
    unfolding spec_in_range_def Bex_def atLeastAtMost_iff by blast
  finally show ?thesis .
qed

lemma spec_in_range_Sigma:
  "{(major, minor). spec_in_range a b c d major minor} =
     (SIGMA major:{a..c}. {(if major = a then b else 0)..(if major = c then d else 99)})"
  by (auto simp: spec_in_range_def split del: if_split)

lemma length_generate_all_version_numbers:
  "length (generate_all_version_numbers a b c d) =
     221 * card {(major, minor). spec_in_range a b c d major minor}"
proof -
  let ?n = "\<lambda>major. nat ((if major = c then d else 99) - (if major = a then b else 0) + 1)"
  have "length (major_versions a b c d major) = 221 * ?n major" for major
    by (simp add: major_versions_def Let_def length_concat o_def length_minor_versions sum_list_triv)
  then have "length (generate_all_version_numbers a b c d) = (\<Sum>major\<leftarrow>[a..c]. 221 * ?n major)"
    by (simp add: generate_all_version_numbers_def length_concat o_def)
  also have "\<dots> = (\<Sum>major\<in>{a..c}. 221 * ?n major)"
    by (simp add: sum_list_distinct_conv_sum_set)
  also have "\<dots> = 221 * (\<Sum>major\<in>{a..c}. ?n major)"
    by (simp add: sum_distrib_left)
  also have "(\<Sum>major\<in>{a..c}. ?n major) = card {(major, minor). spec_in_range a b c d major minor}"
    unfolding spec_in_range_Sigma by (subst card_SigmaI) simp_all
  finally show ?thesis .
qed

lemma minor_versions_members:
  assumes "patch \<in> {1..20}" and "n \<in> {1..5}"
  shows "str_int major @ ''.'' @ str_int minor \<in> set (minor_versions major minor)"
    and "str_int major @ ''.'' @ str_int minor @ ''.'' @ str_int patch
           \<in> set (minor_versions major minor)"
    and "str_int major @ ''.'' @ str_int minor @ ''.'' @ str_int patch @ ''rc'' @ str_int n
           \<in> set (minor_versions major minor)"
    and "str_int major @ ''.'' @ str_int minor @ ''.'' @ str_int patch @ ''beta'' @ str_int n
           \<in> set (minor_versions major minor)"
proof -
  let ?base = "str_int major @ ''.'' @ str_int minor"
  have p: "set (patch_versions ?base patch) \<subseteq> set (minor_versions major minor)"
    using assms(1) by (auto simp: minor_versions_def Let_def)
  show "?base \<in> set (minor_versions major minor)"
    by (simp add: minor_versions_def Let_def)
  have "?base @ ''.'' @ str_int patch \<in> set (patch_versions ?base patch)"
    by (simp add: patch_versions_def)
  with p show "str_int major @ ''.'' @ str_int minor @ ''.'' @ str_int patch
           \<in> set (minor_versions major minor)"
    by auto
  have "?base @ ''.'' @ str_int patch @ ''rc'' @ str_int n \<in> set (patch_versions ?base patch)"
    using assms(2) by (simp add: patch_versions_def)
  with p show "str_int major @ ''.'' @ str_int minor @ ''.'' @ str_int patch @ ''rc'' @ str_int n
           \<in> set (minor_versions major minor)"
    by auto
  have "?base @ ''.'' @ str_int patch @ ''beta'' @ str_int n \<in> set (patch_versions ?base patch)"
    using assms(2) by (simp add: patch_versions_def)
  with p show "str_int major @ ''.'' @ str_int minor @ ''.'' @ str_int patch @ ''beta'' @ str_int n
           \<in> set (minor_versions major minor)"
    by auto
qed

lemma count_generated:
  assumes "spec_in_range a b c d major minor" and "x \<in> set (minor_versions major minor)"
  shows "count_list (generate_all_version_numbers a b c d) x = 1"
proof -
  from assms have "x \<in> set (generate_all_version_numbers a b c d)"
    unfolding in_generate_all_version_numbers by blast
  with distinct_generate_all_version_numbers show ?thesis
    by (rule distinct_count_list)
qed

text \<open>
  C3. For a range with \<open>start_major \<le> end_major\<close>, and every pair \<open>major.minor\<close> of the
  range, the output of \<^verbatim>\<open>generate_all_version_numbers\<close> holds the base entry exactly once,
  each of the patches 1 to 20 exactly once, and for each patch each of \<^verbatim>\<open>rc1\<close> to \<^verbatim>\<open>rc5\<close>
  and \<^verbatim>\<open>beta1\<close> to \<^verbatim>\<open>beta5\<close> exactly once. These 221 entries per pair are all there is:
  the length of the output is 221 times the number of pairs in the range, a function of
  the range alone.
\<close>

theorem generate_all_version_numbers_entries:
  assumes "start_major \<le> end_major"
  shows "(\<forall>major minor.
            spec_in_range start_major start_minor end_major end_minor major minor \<longrightarrow>
              count_list (generate_all_version_numbers start_major start_minor end_major end_minor)
                (str_int major @ ''.'' @ str_int minor) = 1
              \<and> (\<forall>patch\<in>{1..20}.
                    count_list (generate_all_version_numbers start_major start_minor end_major end_minor)
                      (str_int major @ ''.'' @ str_int minor @ ''.'' @ str_int patch) = 1
                    \<and> (\<forall>n\<in>{1..5}.
                          count_list (generate_all_version_numbers start_major start_minor end_major end_minor)
                            (str_int major @ ''.'' @ str_int minor @ ''.'' @ str_int patch
                               @ ''rc'' @ str_int n) = 1
                          \<and> count_list (generate_all_version_numbers start_major start_minor end_major end_minor)
                              (str_int major @ ''.'' @ str_int minor @ ''.'' @ str_int patch
                                 @ ''beta'' @ str_int n) = 1)))
         \<and> length (generate_all_version_numbers start_major start_minor end_major end_minor)
             = 221 * card {(major, minor).
                             spec_in_range start_major start_minor end_major end_minor major minor}"
proof (intro conjI allI impI ballI)
  show "length (generate_all_version_numbers start_major start_minor end_major end_minor)
          = 221 * card {(major, minor).
                          spec_in_range start_major start_minor end_major end_minor major minor}"
    by (rule length_generate_all_version_numbers)
next
  fix major minor
  assume r: "spec_in_range start_major start_minor end_major end_minor major minor"
  have one: "(1::int) \<in> {1..20}" "(1::int) \<in> {1..5}" by simp_all
  show "count_list (generate_all_version_numbers start_major start_minor end_major end_minor)
          (str_int major @ ''.'' @ str_int minor) = 1"
    by (rule count_generated [OF r minor_versions_members(1) [OF one]])
  fix patch :: int
  assume p: "patch \<in> {1..20}"
  show "count_list (generate_all_version_numbers start_major start_minor end_major end_minor)
          (str_int major @ ''.'' @ str_int minor @ ''.'' @ str_int patch) = 1"
    by (rule count_generated [OF r minor_versions_members(2) [OF p one(2)]])
  fix n :: int
  assume n: "n \<in> {1..5}"
  show "count_list (generate_all_version_numbers start_major start_minor end_major end_minor)
          (str_int major @ ''.'' @ str_int minor @ ''.'' @ str_int patch @ ''rc'' @ str_int n) = 1"
    by (rule count_generated [OF r minor_versions_members(3) [OF p n]])
  show "count_list (generate_all_version_numbers start_major start_minor end_major end_minor)
          (str_int major @ ''.'' @ str_int minor @ ''.'' @ str_int patch @ ''beta'' @ str_int n) = 1"
    by (rule count_generated [OF r minor_versions_members(4) [OF p n]])
qed

lemma str_int_examples:
  "str_int 0 = ''0''" "str_int 1 = ''1''" "str_int 3 = ''3''" "str_int 5 = ''5''"
  "str_int 7 = ''7''" "str_int 8 = ''8''" "str_int 20 = ''20''" "str_int 98 = ''98''"
  "str_int 99 = ''99''"
  by (simp_all add: str_int_def digits_of.simps digit_char_def)

theorem generate_all_version_numbers_entries_witness:
  "(7::int) \<le> 8
   \<and> count_list (generate_all_version_numbers 7 98 8 0) ''7.99'' = 1
   \<and> count_list (generate_all_version_numbers 7 98 8 0) ''7.99.20'' = 1
   \<and> count_list (generate_all_version_numbers 7 98 8 0) ''7.99.20rc5'' = 1
   \<and> count_list (generate_all_version_numbers 7 98 8 0) ''7.99.20beta5'' = 1
   \<and> count_list (generate_all_version_numbers 7 98 8 0) ''8.0.1beta3'' = 1
   \<and> length (generate_all_version_numbers 7 98 8 0) = 663"
proof -
  have h: "(7::int) \<le> 8" by simp
  note t = generate_all_version_numbers_entries [OF h, of 98 0]
  have r1: "spec_in_range 7 98 8 0 7 99" and r2: "spec_in_range 7 98 8 0 8 0"
    by (simp_all add: spec_in_range_def)
  have "{(major, minor). spec_in_range 7 98 8 0 major minor} = {(7, 98), (7, 99), (8, 0)}"
    by (auto simp: spec_in_range_def split: if_splits)
  then have c: "card {(major, minor). spec_in_range 7 98 8 0 major minor} = 3"
    by simp
  from t r1 have "count_list (generate_all_version_numbers 7 98 8 0) (str_int 7 @ ''.'' @ str_int 99) = 1"
    by blast
  moreover from t r1 have "count_list (generate_all_version_numbers 7 98 8 0)
      (str_int 7 @ ''.'' @ str_int 99 @ ''.'' @ str_int 20) = 1"
    by simp
  moreover from t r1 have "count_list (generate_all_version_numbers 7 98 8 0)
      (str_int 7 @ ''.'' @ str_int 99 @ ''.'' @ str_int 20 @ ''rc'' @ str_int 5) = 1"
    by simp
  moreover from t r1 have "count_list (generate_all_version_numbers 7 98 8 0)
      (str_int 7 @ ''.'' @ str_int 99 @ ''.'' @ str_int 20 @ ''beta'' @ str_int 5) = 1"
    by simp
  moreover from t r2 have "count_list (generate_all_version_numbers 7 98 8 0)
      (str_int 8 @ ''.'' @ str_int 0 @ ''.'' @ str_int 1 @ ''beta'' @ str_int 3) = 1"
    by simp
  moreover from t c have "length (generate_all_version_numbers 7 98 8 0) = 663"
    by simp
  ultimately show ?thesis
    by (simp add: str_int_examples)
qed

end
